theory Spec2Isabelle
  imports Complex_Main "HOL-Library.Multiset" "HOL-Library.Log_Nat"
begin

section \<open>Python values\<close>

text \<open>
  A Python \<open>str\<close> is a sequence of Unicode code points; \<open>ascii\<close> embeds an ASCII literal.
  The chat messages are JSON objects decoded by \<open>response.json()\<close>: every field is a value
  of type \<open>Any\<close>. A \<open>dict\<close> is an association list in insertion order (Python dictionaries
  iterate in insertion order); a finite \<open>float\<close> is the rational number it denotes.
\<close>

type_synonym pystr = "int list"

definition ascii :: "string \<Rightarrow> pystr" where
  "ascii s = map of_char s"

datatype pyval =
    PNone
  | PBool bool
  | PInt int
  | PFloat rat
  | PStr pystr
  | PList "pyval list"
  | PDict "(pystr \<times> pyval) list"

type_synonym msg = "(pystr \<times> pyval) list"

datatype py_error =
    KeyError | AttributeError | TypeError | ValueError | OverflowError | ReError

text \<open>\<open>d.get(k)\<close> and \<open>d.get(k, default)\<close> on a dictionary.\<close>

definition dict_get :: "(pystr \<times> pyval) list \<Rightarrow> pystr \<Rightarrow> pyval \<Rightarrow> pyval" where
  "dict_get d k dflt = (case map_of d k of None \<Rightarrow> dflt | Some v \<Rightarrow> v)"

text \<open>
  \<open>v.get(k, default)\<close> on an arbitrary value: only a dictionary has the method, every other
  value raises \<open>AttributeError\<close>.
\<close>

definition attr_get :: "pyval \<Rightarrow> pystr \<Rightarrow> pyval \<Rightarrow> py_error + pyval" where
  "attr_get v k dflt = (case v of PDict d \<Rightarrow> Inr (dict_get d k dflt) | _ \<Rightarrow> Inl AttributeError)"

text \<open>\<open>info = msg.get("info", {})\<close>\<close>

definition msg_info :: "msg \<Rightarrow> pyval" where
  "msg_info m = dict_get m (ascii ''info'') (PDict [])"

text \<open>\<open>msg.get("info", {}).get("type")\<close>\<close>

definition msg_type :: "msg \<Rightarrow> py_error + pyval" where
  "msg_type m = attr_get (msg_info m) (ascii ''type'') PNone"

text \<open>Truth value of a Python object, as tested by \<open>not user\<close>.\<close>

fun truthy :: "pyval \<Rightarrow> bool" where
  "truthy PNone = False"
| "truthy (PBool b) = b"
| "truthy (PInt i) = (i \<noteq> 0)"
| "truthy (PFloat r) = (r \<noteq> 0)"
| "truthy (PStr s) = (s \<noteq> [])"
| "truthy (PList xs) = (xs \<noteq> [])"
| "truthy (PDict d) = (d \<noteq> [])"

text \<open>
  Dictionary keys. \<open>True\<close>, \<open>1\<close> and \<open>1.0\<close> hash and compare equal, so numbers are keyed by
  their value; lists and dictionaries are unhashable and raise \<open>TypeError\<close>.
\<close>

datatype pykey = KNone | KStr pystr | KNum rat

fun key_of :: "pyval \<Rightarrow> py_error + pykey" where
  "key_of PNone = Inr KNone"
| "key_of (PBool b) = Inr (KNum (if b then 1 else 0))"
| "key_of (PInt i) = Inr (KNum (of_int i))"
| "key_of (PFloat r) = Inr (KNum r)"
| "key_of (PStr s) = Inr (KStr s)"
| "key_of (PList xs) = Inl TypeError"
| "key_of (PDict d) = Inl TypeError"

section \<open>Event filter\<close>

text \<open>
  A \<open>datetime\<close> is the number of microseconds since the epoch (the resolution of the
  type). \<open>datetime.now()\<close> is the parameter \<open>now\<close>. The local-time offset is taken to be
  constant, so that comparing two naive local datetimes is comparing their instants.

  \<open>datetime.fromtimestamp(msg["timestamp"] / 1000)\<close>: the subscript raises \<open>KeyError\<close>
  when the field is absent, the division raises \<open>TypeError\<close> for a value that is not a
  number, and the quotient is rounded to the microsecond, half to even. For an integer
  count of milliseconds the result is that count times 1000 microseconds.
\<close>

type_synonym datetime = int

definition round_half_even :: "rat \<Rightarrow> int" where
  "round_half_even x =
     (let f = \<lfloor>x\<rfloor>; d = x - of_int f
      in if d < 1 / 2 then f else if 1 / 2 < d then f + 1 else if even f then f else f + 1)"

fun fromtimestamp_ms :: "pyval \<Rightarrow> py_error + datetime" where
  "fromtimestamp_ms (PInt t) = Inr (t * 1000)"
| "fromtimestamp_ms (PBool b) = Inr (if b then 1000 else 0)"
| "fromtimestamp_ms (PFloat r) = Inr (round_half_even (r * 1000))"
| "fromtimestamp_ms v = Inl TypeError"

definition msg_instant :: "msg \<Rightarrow> py_error + datetime" where
  "msg_instant m =
     (case map_of m (ascii ''timestamp'') of
        None \<Rightarrow> Inl KeyError
      | Some v \<Rightarrow> fromtimestamp_ms v)"

definition timedelta_days :: "int \<Rightarrow> int" where
  "timedelta_days days = days * 86400 * 1000000"

text \<open>
  The list comprehension of \<open>filter_recent_boss_messages\<close> (lines 56-61) and the one of
  \<open>main\<close> for the skill messages (lines 236-240) differ in the kind literal only:
  \<open>[msg for msg in chat if msg.get("info", {}).get("type") == kind
      and datetime.fromtimestamp(msg["timestamp"] / 1000) >= since]\<close>.
  \<open>and\<close> evaluates its right operand only when the left one is true; an exception ends
  the comprehension.
\<close>

fun select_since :: "pystr \<Rightarrow> datetime \<Rightarrow> msg list \<Rightarrow> py_error + msg list" where
  "select_since kind since [] = Inr []"
| "select_since kind since (m # chat) =
     (case msg_type m of
        Inl e \<Rightarrow> Inl e
      | Inr ty \<Rightarrow>
          if ty = PStr kind then
            (case msg_instant m of
               Inl e \<Rightarrow> Inl e
             | Inr t \<Rightarrow>
                 (case select_since kind since chat of
                    Inl e \<Rightarrow> Inl e
                  | Inr r \<Rightarrow> Inr (if since \<le> t then m # r else r)))
          else select_since kind since chat)"

definition filter_recent_boss_messages :: "datetime \<Rightarrow> msg list \<Rightarrow> int \<Rightarrow> py_error + msg list" where
  "filter_recent_boss_messages now chat days =
     select_since (ascii ''boss_damage'') (now - timedelta_days days) chat"

definition recent_skill_msgs :: "datetime \<Rightarrow> msg list \<Rightarrow> py_error + msg list" where
  "recent_skill_msgs now chat =
     select_since (ascii ''spell_cast_party'') (now - timedelta_days 7) chat"



section \<open>Skill aggregator\<close>

text \<open>
  \<open>int(times)\<close>. Parsing a string is the work of the Python runtime, not of this program:
  \<open>str_to_int\<close> is that parser, \<open>None\<close> where it raises \<open>ValueError\<close>. A float is truncated
  towards zero.
\<close>

fun py_int :: "(pystr \<Rightarrow> int option) \<Rightarrow> pyval \<Rightarrow> py_error + int" where
  "py_int str_to_int (PInt i) = Inr i"
| "py_int str_to_int (PBool b) = Inr (if b then 1 else 0)"
| "py_int str_to_int (PFloat r) = Inr (if 0 \<le> r then \<lfloor>r\<rfloor> else \<lceil>r\<rceil>)"
| "py_int str_to_int (PStr s) = (case str_to_int s of None \<Rightarrow> Inl ValueError | Some i \<Rightarrow> Inr i)"
| "py_int str_to_int v = Inl TypeError"

text \<open>
  \<open>skills[user] += n\<close> after \<open>if user not in skills: skills[user] = 0\<close>: a new key goes to
  the end of the dictionary, an existing key keeps its place.
\<close>

fun add_count :: "pykey \<Rightarrow> int \<Rightarrow> (pykey \<times> int) list \<Rightarrow> (pykey \<times> int) list" where
  "add_count k n [] = [(k, 0 + n)]"
| "add_count k n ((k', c) # d) = (if k = k' then (k', c + n) # d else (k', c) # add_count k n d)"

fun skills_loop ::
  "(pystr \<Rightarrow> int option) \<Rightarrow> (pykey \<times> int) list \<Rightarrow> msg list \<Rightarrow> py_error + (pykey \<times> int) list" where
  "skills_loop P skills [] = Inr skills"
| "skills_loop P skills (m # messages) =
     (case msg_type m of
        Inl e \<Rightarrow> Inl e
      | Inr ty \<Rightarrow>
          if ty \<noteq> PStr (ascii ''spell_cast_party'') then skills_loop P skills messages
          else
            let info = (case msg_info m of PDict d \<Rightarrow> d | _ \<Rightarrow> []);
                user = dict_get info (ascii ''user'') PNone;
                times = dict_get info (ascii ''times'') (PInt 1)
            in if \<not> truthy user then skills_loop P skills messages
               else
                 (case key_of user of
                    Inl e \<Rightarrow> Inl e
                  | Inr k \<Rightarrow>
                      (case py_int P times of
                         Inl e \<Rightarrow> Inl e
                       | Inr n \<Rightarrow> skills_loop P (add_count k n skills) messages)))"

definition aggregate_team_skills ::
  "(pystr \<Rightarrow> int option) \<Rightarrow> msg list \<Rightarrow> py_error + (pykey \<times> int) list" where
  "aggregate_team_skills P messages = skills_loop P [] messages"

text \<open>The total of a key, \<open>0\<close> for a key that is not in the dictionary.\<close>

definition total_of :: "(pykey \<times> int) list \<Rightarrow> pykey \<Rightarrow> int" where
  "total_of d k = (case map_of d k of None \<Rightarrow> 0 | Some c \<Rightarrow> c)"

definition is_skill :: "msg \<Rightarrow> bool" where
  "is_skill m = (msg_type m = Inr (PStr (ascii ''spell_cast_party'')))"

definition info_ok :: "msg \<Rightarrow> bool" where
  "info_ok m = (case msg_type m of Inl e \<Rightarrow> False | Inr ty \<Rightarrow> True)"

section \<open>Floating point\<close>

text \<open>
  A finite \<open>float\<close> is an IEEE 754 binary64 number: \<open>round_double\<close> rounds a rational to the
  nearest one, ties to the even significand, with 53 bits of precision above
  \<open>2 ^ - 1022\<close> and the fixed spacing \<open>2 ^ - 1074\<close> below. Overflow to infinity, not-a-number
  and the sign of zero are outside the model: every sum is taken to stay below
  \<open>2 ^ 1024\<close>.
\<close>

definition pow2 :: "int \<Rightarrow> rat" where
  "pow2 e = (if 0 \<le> e then 2 ^ nat e else 1 / 2 ^ nat (- e))"

text \<open>The exponent \<open>e\<close> with \<open>2 ^ e \<le> x < 2 ^ (e + 1)\<close>, for a positive \<open>x\<close>.\<close>

definition ilog2 :: "rat \<Rightarrow> int" where
  "ilog2 x =
     (let (p, q) = quotient_of x; e = bitlen p - bitlen q
      in if pow2 e \<le> x then e else e - 1)"

text \<open>The exponent of the binade of \<open>x\<close>, and the spacing of the floats in it.\<close>

definition fexp :: "rat \<Rightarrow> int" where
  "fexp x = max (ilog2 \<bar>x\<bar>) (- 1022)"

definition ulp :: "rat \<Rightarrow> rat" where
  "ulp x = pow2 (fexp x - 52)"

definition round_double :: "rat \<Rightarrow> rat" where
  "round_double x = (if x = 0 then 0 else of_int (round_half_even (x / ulp x)) * ulp x)"

text \<open>\<open>a + b\<close> on two floats.\<close>

definition float_add :: "rat \<Rightarrow> rat \<Rightarrow> rat" where
  "float_add a b = round_double (a + b)"

text \<open>
  \<open>float(v)\<close>. An integer is rounded to the nearest float and raises \<open>OverflowError\<close> when
  the result is \<open>2 ^ 1024\<close> or more in magnitude (its exponent is above 1023); parsing a string is the work of the Python runtime (\<open>str_to_float\<close>,
  \<open>None\<close> where it raises \<open>ValueError\<close>).
\<close>

fun py_float :: "(pystr \<Rightarrow> rat option) \<Rightarrow> pyval \<Rightarrow> py_error + rat" where
  "py_float str_to_float (PInt i) =
     (let r = round_double (of_int i) in if fexp r < 1024 then Inr r else Inl OverflowError)"
| "py_float str_to_float (PBool b) = Inr (if b then 1 else 0)"
| "py_float str_to_float (PFloat r) = Inr r"
| "py_float str_to_float (PStr s) =
     (case str_to_float s of None \<Rightarrow> Inl ValueError | Some r \<Rightarrow> Inr r)"
| "py_float str_to_float v = Inl TypeError"

section \<open>Damage aggregator\<close>

record stat =
  userDamage :: rat
  bossDamage :: rat

type_synonym stats = "(pykey \<times> stat) list"

text \<open>\<open>if user not in stats: stats[user] = {"userDamage": 0.0, "bossDamage": 0.0}\<close>\<close>

definition ensure :: "pykey \<Rightarrow> stats \<Rightarrow> stats" where
  "ensure k st =
     (if k \<in> fst ` set st then st else st @ [(k, \<lparr>userDamage = 0, bossDamage = 0\<rparr>)])"

text \<open>\<open>stats[user][field] = f(stats[user][field])\<close> for a key of the dictionary.\<close>

fun modify :: "pykey \<Rightarrow> (stat \<Rightarrow> stat) \<Rightarrow> stats \<Rightarrow> stats" where
  "modify k f [] = []"
| "modify k f ((k', s) # st) = (if k = k' then (k', f s) # st else (k', s) # modify k f st)"

text \<open>\<open>except (ValueError, TypeError)\<close>\<close>

definition caught :: "py_error \<Rightarrow> bool" where
  "caught e = (e = ValueError \<or> e = TypeError)"

text \<open>
  One statement of the \<open>try\<close> block: \<open>if v is not None: stats[user][field] += float(v)\<close>,
  with \<open>+\<close> the parameter \<open>add\<close>.
\<close>

definition add_field ::
  "(rat \<Rightarrow> rat \<Rightarrow> rat) \<Rightarrow> (pystr \<Rightarrow> rat option) \<Rightarrow> pykey \<Rightarrow>
   ((rat \<Rightarrow> rat) \<Rightarrow> stat \<Rightarrow> stat) \<Rightarrow> pyval \<Rightarrow> stats \<Rightarrow> py_error + stats" where
  "add_field add P k field_update v st =
     (if v \<noteq> PNone then
        (case py_float P v of
           Inl e \<Rightarrow> Inl e
         | Inr x \<Rightarrow> Inr (modify k (field_update (\<lambda>t. add t x)) st))
      else Inr st)"

text \<open>
  The \<open>try\<close> block (lines 82-89): the two statements in order; a \<open>ValueError\<close> or
  \<open>TypeError\<close> raised by either ends the block and goes on to the next message, with the
  dictionary as the statements before the exception left it. Any other exception leaves
  the function.
\<close>

definition try_block ::
  "(rat \<Rightarrow> rat \<Rightarrow> rat) \<Rightarrow> (pystr \<Rightarrow> rat option) \<Rightarrow> pykey \<Rightarrow> pyval \<Rightarrow> pyval \<Rightarrow> stats \<Rightarrow>
   py_error + stats" where
  "try_block add P k user_damage boss_damage st =
     (case add_field add P k userDamage_update user_damage st of
        Inl e \<Rightarrow> if caught e then Inr st else Inl e
      | Inr st1 \<Rightarrow>
          (case add_field add P k bossDamage_update boss_damage st1 of
             Inl e \<Rightarrow> if caught e then Inr st1 else Inl e
           | Inr st2 \<Rightarrow> Inr st2))"

text \<open>
  \<open>info.get(name)\<close> once \<open>info\<close> is known to be a dictionary (\<open>info.get("user")\<close> has
  returned).
\<close>

definition info_dict :: "msg \<Rightarrow> (pystr \<times> pyval) list" where
  "info_dict m = (case msg_info m of PDict d \<Rightarrow> d | _ \<Rightarrow> [])"

definition field :: "msg \<Rightarrow> string \<Rightarrow> pyval" where
  "field m name = dict_get (info_dict m) (ascii name) PNone"

text \<open>The body of the \<open>for\<close> loop (lines 71-89) on one message.\<close>

definition damage_step ::
  "(rat \<Rightarrow> rat \<Rightarrow> rat) \<Rightarrow> (pystr \<Rightarrow> rat option) \<Rightarrow> stats \<Rightarrow> msg \<Rightarrow> py_error + stats" where
  "damage_step add P st m =
     (case attr_get (msg_info m) (ascii ''user'') PNone of
        Inl e \<Rightarrow> Inl e
      | Inr user \<Rightarrow>
          if \<not> truthy user then Inr st
          else
            let user_damage = field m ''userDamage'';
                boss_damage = field m ''bossDamage''
            in (case key_of user of
                  Inl e \<Rightarrow> Inl e
                | Inr k \<Rightarrow> try_block add P k user_damage boss_damage (ensure k st)))"

fun damage_loop ::
  "(rat \<Rightarrow> rat \<Rightarrow> rat) \<Rightarrow> (pystr \<Rightarrow> rat option) \<Rightarrow> stats \<Rightarrow> msg list \<Rightarrow> py_error + stats" where
  "damage_loop add P st [] = Inr st"
| "damage_loop add P st (m # messages) =
     (case damage_step add P st m of
        Inl e \<Rightarrow> Inl e
      | Inr st' \<Rightarrow> damage_loop add P st' messages)"

definition aggregate_user_damage :: "(pystr \<Rightarrow> rat option) \<Rightarrow> msg list \<Rightarrow> py_error + stats" where
  "aggregate_user_damage P messages = damage_loop float_add P [] messages"

text \<open>The totals of a key, for reading a result.\<close>

definition user_total :: "stats \<Rightarrow> pykey \<Rightarrow> rat option" where
  "user_total st k = map_option userDamage (map_of st k)"

definition boss_total :: "stats \<Rightarrow> pykey \<Rightarrow> rat option" where
  "boss_total st k = map_option bossDamage (map_of st k)"

text \<open>
  The aggregation with exact sums, to compare with: the same loop with the addition of
  the rationals in the place of the addition of the floats.
\<close>

definition aggregate_exact :: "(pystr \<Rightarrow> rat option) \<Rightarrow> msg list \<Rightarrow> py_error + stats" where
  "aggregate_exact P messages = damage_loop (+) P [] messages"

text \<open>No addition of the run rounds: the float totals are the exact sums.\<close>

definition exact_run :: "(pystr \<Rightarrow> rat option) \<Rightarrow> msg list \<Rightarrow> bool" where
  "exact_run P messages = (aggregate_user_damage P messages = aggregate_exact P messages)"

text \<open>The pair of totals of a key, zero for a key that is not in the dictionary.\<close>

definition totals :: "stats \<Rightarrow> pykey \<Rightarrow> rat \<times> rat" where
  "totals st k = (case map_of st k of None \<Rightarrow> (0, 0) | Some s \<Rightarrow> (userDamage s, bossDamage s))"

text \<open>Every value of the message that \<open>float\<close> accepts is at least zero.\<close>

definition nonneg_value :: "(pystr \<Rightarrow> rat option) \<Rightarrow> pyval \<Rightarrow> bool" where
  "nonneg_value P v = (case py_float P v of Inl e \<Rightarrow> True | Inr x \<Rightarrow> 0 \<le> x)"

definition nonneg_values :: "(pystr \<Rightarrow> rat option) \<Rightarrow> msg \<Rightarrow> bool" where
  "nonneg_values P m =
     (nonneg_value P (field m ''userDamage'') \<and> nonneg_value P (field m ''bossDamage''))"

text \<open>
  What the \<open>try\<close> block does to the two totals of the actor, read off its control flow:
  the first statement adds the user damage unless the field is absent or \<open>float\<close> raises;
  the second is reached only when the first did not raise.
\<close>

definition ud_op :: "(rat \<Rightarrow> rat \<Rightarrow> rat) \<Rightarrow> (pystr \<Rightarrow> rat option) \<Rightarrow> pyval \<Rightarrow> rat \<Rightarrow> rat" where
  "ud_op add P u t =
     (if u \<noteq> PNone then (case py_float P u of Inl e \<Rightarrow> t | Inr x \<Rightarrow> add t x) else t)"

definition bd_op :: "(rat \<Rightarrow> rat \<Rightarrow> rat) \<Rightarrow> (pystr \<Rightarrow> rat option) \<Rightarrow> pyval \<Rightarrow> pyval \<Rightarrow> rat \<Rightarrow> rat" where
  "bd_op add P u b t =
     (if u \<noteq> PNone \<and> isl (py_float P u) then t
      else if b \<noteq> PNone then (case py_float P b of Inl e \<Rightarrow> t | Inr y \<Rightarrow> add t y) else t)"

definition block_op :: "(rat \<Rightarrow> rat \<Rightarrow> rat) \<Rightarrow> (pystr \<Rightarrow> rat option) \<Rightarrow> msg \<Rightarrow> stat \<Rightarrow> stat" where
  "block_op add P m s =
     \<lparr>userDamage = ud_op add P (field m ''userDamage'') (userDamage s),
      bossDamage = bd_op add P (field m ''userDamage'') (field m ''bossDamage'') (bossDamage s)\<rparr>"

text \<open>The amounts that a message adds to the two totals of its actor in exact arithmetic.\<close>

definition user_contrib :: "(pystr \<Rightarrow> rat option) \<Rightarrow> msg \<Rightarrow> rat" where
  "user_contrib P m = ud_op (+) P (field m ''userDamage'') 0"

definition boss_contrib :: "(pystr \<Rightarrow> rat option) \<Rightarrow> msg \<Rightarrow> rat" where
  "boss_contrib P m = bd_op (+) P (field m ''userDamage'') (field m ''bossDamage'') 0"

text \<open>Every total of the dictionary is a float and is at least zero.\<close>

definition floats_nonneg :: "stats \<Rightarrow> bool" where
  "floats_nonneg st = (\<forall>p\<in>set st. 0 \<le> userDamage (snd p) \<and> round_double (userDamage (snd p)) = userDamage (snd p)
      \<and> 0 \<le> bossDamage (snd p) \<and> round_double (bossDamage (snd p)) = bossDamage (snd p))"

text \<open>
  A boss damage message of an actor with the two damage fields, for the examples, and a
  string parser that accepts no string, for the examples whose numbers are not strings.
\<close>

definition no_parse :: "pystr \<Rightarrow> 'a option" where
  "no_parse s = None"

definition damage_event :: "string \<Rightarrow> pyval \<Rightarrow> pyval \<Rightarrow> msg" where
  "damage_event user user_damage boss_damage =
     [(ascii ''info'', PDict [(ascii ''type'', PStr (ascii ''boss_damage'')),
        (ascii ''user'', PStr (ascii user)),
        (ascii ''userDamage'', user_damage), (ascii ''bossDamage'', boss_damage)])]"

text \<open>
  The actor of a message, when it has one that the loops accept: a true value that can
  be a key. \<open>actors\<close> is the sequence of the actors of a list of messages, in its order.
\<close>

definition actor :: "msg \<Rightarrow> pykey option" where
  "actor m =
     (case attr_get (msg_info m) (ascii ''user'') PNone of
        Inl e \<Rightarrow> None
      | Inr user \<Rightarrow>
          if truthy user then (case key_of user of Inl e \<Rightarrow> None | Inr k \<Rightarrow> Some k) else None)"

definition actors :: "msg list \<Rightarrow> pykey list" where
  "actors messages = List.map_filter actor messages"



section \<open>Report renderer\<close>










section \<open>Properties of the event filter\<close>


lemma select_since_append:
  "select_since kind since pre = Inr r \<Longrightarrow>
   select_since kind since (pre @ rest) =
     (case select_since kind since rest of Inl e \<Rightarrow> Inl e | Inr r' \<Rightarrow> Inr (r @ r'))"
  by (induction pre arbitrary: r) (auto split: sum.splits if_splits)

lemmas field_defs =
  msg_type_def msg_info_def attr_get_def dict_get_def ascii_def msg_instant_def



text \<open>
  C8, as the claim states it, fails: a boss damage message with no timestamp makes the
  filter raise \<open>KeyError\<close>.
\<close>

theorem filter_missing_timestamp_raises:
  "filter_recent_boss_messages 0
     [[(ascii ''info'', PDict [(ascii ''type'', PStr (ascii ''boss_damage''))])]] 7 = Inl KeyError"
  by (simp add: filter_recent_boss_messages_def field_defs)

text \<open>
  C8, amended. A message with no timestamp is left out without an exception when its kind
  is not the selected one (the timestamp is not read); when its kind is the selected one
  the filter raises \<open>KeyError\<close> on reaching it.
\<close>

theorem missing_timestamp:
  assumes "map_of m (ascii ''timestamp'') = None"
  shows "(\<forall>ty. msg_type m = Inr ty \<and> ty \<noteq> PStr kind \<longrightarrow>
            select_since kind since (m # chat) = select_since kind since chat)
       \<and> (\<forall>pre r. msg_type m = Inr (PStr kind) \<and> select_since kind since pre = Inr r \<longrightarrow>
            select_since kind since (pre @ m # chat) = Inl KeyError)"
  using assms by (auto simp: select_since_append msg_instant_def)

theorem missing_timestamp_witness:
  "select_since (ascii ''boss_damage'') 0
     ([(ascii ''info'', PDict [(ascii ''type'', PStr (ascii ''quest_start''))])] # []) = Inr []
   \<and> select_since (ascii ''quest_start'') 0
     ([] @ [(ascii ''info'', PDict [(ascii ''type'', PStr (ascii ''quest_start''))])] # [])
       = Inl KeyError"
  using
    missing_timestamp [of "[(ascii ''info'', PDict [(ascii ''type'', PStr (ascii ''quest_start''))])]"
      "ascii ''boss_damage''" 0 "[]"]
    missing_timestamp [of "[(ascii ''info'', PDict [(ascii ''type'', PStr (ascii ''quest_start''))])]"
      "ascii ''quest_start''" 0 "[]"]
  by (simp add: field_defs)

section \<open>Properties of the skill aggregator\<close>

lemma map_of_add_count:
  "map_of (add_count k n d) k' =
     (if k' = k then Some (total_of d k + n) else map_of d k')"
  by (induction d) (auto simp: total_of_def)

lemma total_of_add_count:
  "total_of (add_count k n d) k' = (if k' = k then total_of d k + n else total_of d k')"
  by (simp add: total_of_def map_of_add_count)

lemma skills_loop_filter:
  "\<forall>m\<in>set msgs. info_ok m \<Longrightarrow>
   skills_loop P skills msgs = skills_loop P skills (filter is_skill msgs)"
  by (induction msgs arbitrary: skills)
     (auto simp: info_ok_def is_skill_def Let_def split: sum.splits)

text \<open>
  C7. A skill message with an actor \<open>k\<close> adds its cast count to the total of \<open>k\<close> and
  leaves every other total as it was: a count \<open>times\<close> that is the integer \<open>c\<close>, or a string
  that \<open>int\<close> reads as \<open>c\<close>, adds \<open>c\<close>, and an absent field adds 1. When \<open>int(times)\<close>
  raises, the aggregator raises the same exception: a cast count that is an empty list,
  present and not a number, ends the call with \<open>TypeError\<close>.
\<close>

theorem skill_event_adds_cast_count:
  assumes "msg_info m = PDict info"
    and "dict_get info (ascii ''type'') PNone = PStr (ascii ''spell_cast_party'')"
    and "truthy (dict_get info (ascii ''user'') PNone)"
    and "key_of (dict_get info (ascii ''user'') PNone) = Inr k"
  shows "(\<forall>n. py_int P (dict_get info (ascii ''times'') (PInt 1)) = Inr n \<longrightarrow>
            skills_loop P skills (m # rest) = skills_loop P (add_count k n skills) rest
            \<and> total_of (add_count k n skills) k = total_of skills k + n
            \<and> (\<forall>k'. k' \<noteq> k \<longrightarrow> total_of (add_count k n skills) k' = total_of skills k'))
       \<and> (\<forall>c. map_of info (ascii ''times'') = Some (PInt c) \<longrightarrow>
            skills_loop P skills (m # rest) = skills_loop P (add_count k c skills) rest
            \<and> total_of (add_count k c skills) k = total_of skills k + c)
       \<and> (\<forall>s c. map_of info (ascii ''times'') = Some (PStr s) \<and> P s = Some c \<longrightarrow>
            skills_loop P skills (m # rest) = skills_loop P (add_count k c skills) rest
            \<and> total_of (add_count k c skills) k = total_of skills k + c)
       \<and> (map_of info (ascii ''times'') = None \<longrightarrow>
            py_int P (dict_get info (ascii ''times'') (PInt 1)) = Inr 1
            \<and> skills_loop P skills (m # rest) = skills_loop P (add_count k 1 skills) rest
            \<and> total_of (add_count k 1 skills) k = total_of skills k + 1)
       \<and> (\<forall>e. py_int P (dict_get info (ascii ''times'') (PInt 1)) = Inl e \<longrightarrow>
            skills_loop P skills (m # rest) = Inl e)
       \<and> aggregate_team_skills P
            [[(ascii ''info'', PDict [(ascii ''type'', PStr (ascii ''spell_cast_party'')),
                (ascii ''user'', PStr (ascii ''Alice'')), (ascii ''times'', PList [])])]]
           = Inl TypeError"
proof -
  have ty: "msg_type m = Inr (PStr (ascii ''spell_cast_party''))"
    using assms(1,2) by (simp add: msg_type_def attr_get_def)
  have a: "\<forall>n. py_int P (dict_get info (ascii ''times'') (PInt 1)) = Inr n \<longrightarrow>
            skills_loop P skills (m # rest) = skills_loop P (add_count k n skills) rest"
    using assms ty by (simp add: Let_def)
  have b: "\<forall>e. py_int P (dict_get info (ascii ''times'') (PInt 1)) = Inl e \<longrightarrow>
            skills_loop P skills (m # rest) = Inl e"
    using assms ty by (simp add: Let_def)
  have c: "map_of info (ascii ''times'') = None \<longrightarrow>
            py_int P (dict_get info (ascii ''times'') (PInt 1)) = Inr 1"
    by (simp add: dict_get_def)
  have d: "aggregate_team_skills P
            [[(ascii ''info'', PDict [(ascii ''type'', PStr (ascii ''spell_cast_party'')),
                (ascii ''user'', PStr (ascii ''Alice'')), (ascii ''times'', PList [])])]]
           = Inl TypeError"
    by (simp add: aggregate_team_skills_def field_defs)
  have e: "\<forall>c. map_of info (ascii ''times'') = Some (PInt c) \<longrightarrow>
            skills_loop P skills (m # rest) = skills_loop P (add_count k c skills) rest"
    using a by (simp add: dict_get_def)
  have f: "\<forall>s c. map_of info (ascii ''times'') = Some (PStr s) \<and> P s = Some c \<longrightarrow>
            skills_loop P skills (m # rest) = skills_loop P (add_count k c skills) rest"
    using a by (simp add: dict_get_def)
  have g: "map_of info (ascii ''times'') = None \<longrightarrow>
            skills_loop P skills (m # rest) = skills_loop P (add_count k 1 skills) rest"
    using a c by simp
  show ?thesis using a b c d e f g by (simp add: total_of_add_count)
qed

theorem skill_event_adds_cast_count_witness:
  "skills_loop no_parse [(KStr (ascii ''Bob''), 2)]
     ([(ascii ''info'', PDict [(ascii ''type'', PStr (ascii ''spell_cast_party'')),
          (ascii ''user'', PStr (ascii ''Bob'')), (ascii ''times'', PInt 3)])] # [])
   = Inr [(KStr (ascii ''Bob''), 5)]
   \<and> skills_loop no_parse [(KStr (ascii ''Bob''), 2)]
     ([(ascii ''info'', PDict [(ascii ''type'', PStr (ascii ''spell_cast_party'')),
          (ascii ''user'', PStr (ascii ''Bob''))])] # [])
   = Inr [(KStr (ascii ''Bob''), 3)]"
  using skill_event_adds_cast_count [of
      "[(ascii ''info'', PDict [(ascii ''type'', PStr (ascii ''spell_cast_party'')),
          (ascii ''user'', PStr (ascii ''Bob'')), (ascii ''times'', PInt 3)])]"
      "[(ascii ''type'', PStr (ascii ''spell_cast_party'')), (ascii ''user'', PStr (ascii ''Bob'')),
        (ascii ''times'', PInt 3)]"
      "KStr (ascii ''Bob'')" no_parse "[(KStr (ascii ''Bob''), 2)]" "[]"]
    skill_event_adds_cast_count [of
      "[(ascii ''info'', PDict [(ascii ''type'', PStr (ascii ''spell_cast_party'')),
          (ascii ''user'', PStr (ascii ''Bob''))])]"
      "[(ascii ''type'', PStr (ascii ''spell_cast_party'')), (ascii ''user'', PStr (ascii ''Bob''))]"
      "KStr (ascii ''Bob'')" no_parse "[(KStr (ascii ''Bob''), 2)]" "[]"]
  by (simp add: msg_info_def dict_get_def ascii_def)

text \<open>
  C10. On messages whose \<open>info\<close> is absent or an object, the skill aggregator returns on
  the whole list what it returns on the sub-list of the messages of kind
  \<open>spell_cast_party\<close>: it skips every message of another kind itself.
\<close>

theorem skills_ignore_other_kinds:
  assumes "\<forall>m\<in>set messages. info_ok m"
  shows "aggregate_team_skills P messages = aggregate_team_skills P (filter is_skill messages)"
  unfolding aggregate_team_skills_def using assms by (rule skills_loop_filter)

theorem skills_ignore_other_kinds_witness:
  "aggregate_team_skills (\<lambda>s. None)
     [[(ascii ''info'', PDict [(ascii ''type'', PStr (ascii ''boss_damage'')),
         (ascii ''user'', PStr (ascii ''Bob''))])],
      [(ascii ''info'', PDict [(ascii ''type'', PStr (ascii ''spell_cast_party'')),
         (ascii ''user'', PStr (ascii ''Bob''))])]]
   = Inr [(KStr (ascii ''Bob''), 1)]"
  using skills_ignore_other_kinds [of
     "[[(ascii ''info'', PDict [(ascii ''type'', PStr (ascii ''boss_damage'')),
         (ascii ''user'', PStr (ascii ''Bob''))])],
      [(ascii ''info'', PDict [(ascii ''type'', PStr (ascii ''spell_cast_party'')),
         (ascii ''user'', PStr (ascii ''Bob''))])]]" "\<lambda>s. None"]
  by (simp add: field_defs info_ok_def is_skill_def aggregate_team_skills_def)

section \<open>Properties of the float rounding\<close>

lemma pow2_powi: "pow2 e = 2 powi e"
  by (simp add: pow2_def power_int_def power_inverse [symmetric] inverse_eq_divide field_simps)

lemma pow2_pos: "0 < pow2 e"
  by (simp add: pow2_powi)

lemma pow2_add: "pow2 (a + b) = pow2 a * pow2 b"
  by (simp add: pow2_powi power_int_add)

lemma pow2_mono: "a \<le> b \<Longrightarrow> pow2 a \<le> pow2 b"
  by (simp add: pow2_powi power_int_increasing)

lemma pow2_less_mono: "a < b \<Longrightarrow> pow2 a < pow2 b"
  by (simp add: pow2_powi power_int_strict_increasing)

lemma pow2_nat: "pow2 (int n) = 2 ^ n"
  by (simp add: pow2_def)

lemma ilog2_bounds:
  assumes "0 < x"
  shows "pow2 (ilog2 x) \<le> x \<and> x < pow2 (ilog2 x + 1)"
proof -
  obtain p q where pq: "quotient_of x = (p, q)" by (cases "quotient_of x")
  have q: "0 < q" using pq by (rule quotient_of_denom_pos)
  have x: "x = of_int p / of_int q" using pq by (rule quotient_of_div)
  have p: "0 < p" using assms q x by (simp add: zero_less_divide_iff)
  define e where "e = bitlen p - bitlen q"
  have bp: "2 ^ nat (bitlen p - 1) \<le> p" "p < 2 ^ nat (bitlen p)" using bitlen_bounds [OF p] by auto
  have bq: "2 ^ nat (bitlen q - 1) \<le> q" "q < 2 ^ nat (bitlen q)" using bitlen_bounds [OF q] by auto
  have bp1: "1 \<le> bitlen p" using p by (simp add: bitlen_alt_def)
  have bq1: "1 \<le> bitlen q" using q by (simp add: bitlen_alt_def)
  have P1: "pow2 (bitlen p - 1) \<le> of_int p"
  proof -
    have "(of_int (2 ^ nat (bitlen p - 1)) :: rat) \<le> of_int p" using bp(1) by (simp only: of_int_le_iff)
    moreover have "pow2 (bitlen p - 1) = 2 ^ nat (bitlen p - 1)" using bp1 by (simp add: pow2_def)
    ultimately show ?thesis by simp
  qed
  have P2: "of_int p < pow2 (bitlen p)"
  proof -
    have "(of_int p :: rat) < of_int (2 ^ nat (bitlen p))" using bp(2) by (simp only: of_int_less_iff)
    moreover have "pow2 (bitlen p) = 2 ^ nat (bitlen p)" using bp1 by (simp add: pow2_def)
    ultimately show ?thesis by simp
  qed
  have Q1: "pow2 (bitlen q - 1) \<le> of_int q"
  proof -
    have "(of_int (2 ^ nat (bitlen q - 1)) :: rat) \<le> of_int q" using bq(1) by (simp only: of_int_le_iff)
    moreover have "pow2 (bitlen q - 1) = 2 ^ nat (bitlen q - 1)" using bq1 by (simp add: pow2_def)
    ultimately show ?thesis by simp
  qed
  have Q2: "of_int q < pow2 (bitlen q)"
  proof -
    have "(of_int q :: rat) < of_int (2 ^ nat (bitlen q))" using bq(2) by (simp only: of_int_less_iff)
    moreover have "pow2 (bitlen q) = 2 ^ nat (bitlen q)" using bq1 by (simp add: pow2_def)
    ultimately show ?thesis by simp
  qed
  have qpos: "(0::rat) < of_int q" using q by simp
  have lo: "pow2 (e - 1) \<le> x"
  proof -
    have "pow2 (e - 1) * pow2 (bitlen q) = pow2 (bitlen p - 1)"
      by (simp add: pow2_add [symmetric] e_def)
    then have "pow2 (e - 1) * of_int q \<le> of_int p"
      using Q2 P1 pow2_pos [of "e - 1"]
      by (smt (verit, ccfv_SIG) mult_left_mono less_eq_rat_def order_trans)
    then show ?thesis using qpos by (simp add: x pos_le_divide_eq)
  qed
  have hi: "x < pow2 (e + 1)"
  proof -
    have "pow2 (e + 1) * pow2 (bitlen q - 1) = pow2 (bitlen p)"
      by (simp add: pow2_add [symmetric] e_def)
    then have "of_int p < pow2 (e + 1) * of_int q"
      using Q1 P2 pow2_pos [of "e + 1"]
      by (smt (verit, ccfv_SIG) mult_left_mono less_eq_rat_def order_less_le_trans)
    then show ?thesis using qpos by (simp add: x pos_divide_less_eq)
  qed
  show ?thesis
  proof (cases "pow2 e \<le> x")
    case True
    then have "ilog2 x = e" by (simp add: ilog2_def pq e_def)
    then show ?thesis using True hi by simp
  next
    case False
    then have "ilog2 x = e - 1" by (simp add: ilog2_def pq e_def)
    then show ?thesis using False lo by simp
  qed
qed

lemma ilog2_unique:
  assumes "pow2 e \<le> x" "x < pow2 (e + 1)"
  shows "ilog2 x = e"
proof -
  have x: "0 < x" using assms(1) pow2_pos [of e] by simp
  note b = ilog2_bounds [OF x]
  have "\<not> ilog2 x < e"
  proof
    assume "ilog2 x < e"
    then have "pow2 (ilog2 x + 1) \<le> pow2 e" by (intro pow2_mono) simp
    then show False using b assms by simp
  qed
  moreover have "\<not> e < ilog2 x"
  proof
    assume "e < ilog2 x"
    then have "pow2 (e + 1) \<le> pow2 (ilog2 x)" by (intro pow2_mono) simp
    then show False using b assms by simp
  qed
  ultimately show ?thesis by simp
qed

lemma ilog2_mono:
  assumes "0 < x" "x \<le> y"
  shows "ilog2 x \<le> ilog2 y"
proof (rule ccontr)
  assume "\<not> ilog2 x \<le> ilog2 y"
  then have "pow2 (ilog2 y + 1) \<le> pow2 (ilog2 x)" by (intro pow2_mono) simp
  moreover have "0 < y" using assms by simp
  ultimately show False using ilog2_bounds [OF assms(1)] ilog2_bounds [OF \<open>0 < y\<close>] assms(2) by simp
qed

lemma round_half_even_int [simp]: "round_half_even (of_int n) = n"
  by (simp add: round_half_even_def)

lemma round_half_even_mono:
  assumes "x \<le> y"
  shows "round_half_even x \<le> round_half_even y"
proof (cases "\<lfloor>x\<rfloor> = \<lfloor>y\<rfloor>")
  case True
  then show ?thesis using assms by (auto simp: round_half_even_def Let_def)
next
  case False
  then have lt: "\<lfloor>x\<rfloor> < \<lfloor>y\<rfloor>" using assms floor_mono [OF assms] by simp
  have "round_half_even x \<le> \<lfloor>x\<rfloor> + 1" by (simp add: round_half_even_def Let_def)
  moreover have "\<lfloor>y\<rfloor> \<le> round_half_even y" by (simp add: round_half_even_def Let_def)
  ultimately show ?thesis using lt by simp
qed

lemma round_half_even_ge: "of_int n \<le> x \<Longrightarrow> n \<le> round_half_even x"
  using round_half_even_mono [of "of_int n" x] by simp

lemma round_half_even_le: "x \<le> of_int n \<Longrightarrow> round_half_even x \<le> n"
  using round_half_even_mono [of x "of_int n"] by simp

lemma ulp_pos: "0 < ulp x"
  by (simp add: ulp_def pow2_pos)

lemma ulp_fexp: "ulp x = pow2 (fexp x - 52)"
  by (simp add: ulp_def)

lemma pow2_53: "pow2 (e + 1) = 9007199254740992 * pow2 (e - 52)"
proof -
  have "e + 1 = 53 + (e - 52)" by simp
  then have "pow2 (e + 1) = pow2 (53 + (e - 52))" by (rule arg_cong)
  also have "\<dots> = pow2 53 * pow2 (e - 52)" by (rule pow2_add)
  finally show ?thesis by (simp add: pow2_def)
qed

lemma pow2_52: "pow2 e = 4503599627370496 * pow2 (e - 52)"
proof -
  have "e = 52 + (e - 52)" by simp
  then have "pow2 e = pow2 (52 + (e - 52))" by (rule arg_cong)
  also have "\<dots> = pow2 52 * pow2 (e - 52)" by (rule pow2_add)
  finally show ?thesis by (simp add: pow2_def)
qed

lemma round_double_pos_eq: "0 < x \<Longrightarrow> round_double x = of_int (round_half_even (x / ulp x)) * ulp x"
  by (simp add: round_double_def)

lemma significand_le:
  assumes "0 < x"
  shows "round_half_even (x / ulp x) \<le> 9007199254740992"
proof -
  have "x < pow2 (ilog2 x + 1)" using ilog2_bounds [OF assms] by simp
  also have "\<dots> \<le> pow2 (fexp x + 1)" using assms by (intro pow2_mono) (simp add: fexp_def)
  also have "\<dots> = 9007199254740992 * ulp x" by (simp add: pow2_53 ulp_fexp)
  finally have "x / ulp x \<le> of_int 9007199254740992"
    using ulp_pos [of x] by (simp add: pos_divide_le_eq)
  then show ?thesis by (rule round_half_even_le)
qed

lemma significand_ge:
  assumes "0 < x" "fexp x = ilog2 x"
  shows "4503599627370496 \<le> round_half_even (x / ulp x)"
proof -
  have "4503599627370496 * ulp x = pow2 (ilog2 x)" using assms(2) by (simp add: pow2_52 [of "ilog2 x"] ulp_fexp)
  also have "\<dots> \<le> x" using ilog2_bounds [OF assms(1)] by simp
  finally have "of_int 4503599627370496 \<le> x / ulp x"
    using ulp_pos [of x] by (simp add: pos_le_divide_eq)
  then show ?thesis by (rule round_half_even_ge)
qed

lemma significand_nonneg: "0 \<le> x \<Longrightarrow> 0 \<le> round_half_even (x / ulp x)"
  using ulp_pos [of x] by (intro round_half_even_ge) simp

lemma round_double_nonneg: "0 \<le> x \<Longrightarrow> 0 \<le> round_double x"
  using significand_nonneg [of x] ulp_pos [of x] by (simp add: round_double_def)

lemma round_double_le_pow2:
  assumes "0 < x"
  shows "round_double x \<le> pow2 (fexp x + 1)"
proof -
  have "of_int (round_half_even (x / ulp x)) \<le> (9007199254740992 :: rat)"
    using significand_le [OF assms] by (metis of_int_le_iff of_int_numeral)
  then have "of_int (round_half_even (x / ulp x)) * ulp x \<le> 9007199254740992 * ulp x"
    using ulp_pos [of x] by (simp add: mult_right_mono)
  then show ?thesis using assms by (simp add: round_double_pos_eq pow2_53 ulp_fexp)
qed

lemma round_double_ge_pow2:
  assumes "0 < x" "fexp x = ilog2 x"
  shows "pow2 (fexp x) \<le> round_double x"
proof -
  have "(4503599627370496 :: rat) \<le> of_int (round_half_even (x / ulp x))"
    using significand_ge [OF assms] by (metis of_int_le_iff of_int_numeral)
  then have "4503599627370496 * ulp x \<le> of_int (round_half_even (x / ulp x)) * ulp x"
    using ulp_pos [of x] by (simp add: mult_right_mono)
  then show ?thesis using assms(1) by (simp add: round_double_pos_eq pow2_52 [of "fexp x"] ulp_fexp)
qed

lemma fexp_mono: "0 < x \<Longrightarrow> x \<le> y \<Longrightarrow> fexp x \<le> fexp y"
  using ilog2_mono [of x y] by (simp add: fexp_def)

lemma round_double_mono_pos:
  assumes "0 < x" "x \<le> y"
  shows "round_double x \<le> round_double y"
proof -
  have y: "0 < y" using assms by simp
  show ?thesis
  proof (cases "fexp x = fexp y")
    case True
    then have u: "ulp x = ulp y" by (simp add: ulp_fexp)
    have "x / ulp y \<le> y / ulp y" using assms(2) ulp_pos [of y] by (simp add: divide_right_mono)
    then have "round_half_even (x / ulp y) \<le> round_half_even (y / ulp y)" by (rule round_half_even_mono)
    then have "(of_int (round_half_even (x / ulp y)) :: rat) \<le> of_int (round_half_even (y / ulp y))"
      by simp
    then show ?thesis using assms(1) y u ulp_pos [of y]
      by (simp add: round_double_pos_eq mult_right_mono)
  next
    case False
    then have lt: "fexp x < fexp y" using fexp_mono [OF assms] by simp
    then have ny: "fexp y = ilog2 y" using y by (simp add: fexp_def max_def split: if_splits)
    have "round_double x \<le> pow2 (fexp x + 1)" using assms(1) by (rule round_double_le_pow2)
    also have "\<dots> \<le> pow2 (fexp y)" using lt by (intro pow2_mono) simp
    also have "\<dots> \<le> round_double y" using y ny by (rule round_double_ge_pow2)
    finally show ?thesis .
  qed
qed

lemma round_double_mono_nonneg:
  assumes "0 \<le> x" "x \<le> y"
  shows "round_double x \<le> round_double y"
proof (cases "x = 0")
  case True
  then show ?thesis using assms round_double_nonneg [of y] by (simp add: round_double_def)
next
  case False
  then show ?thesis using assms by (intro round_double_mono_pos) simp_all
qed

lemma round_double_exact:
  assumes "x / ulp x = of_int n"
  shows "round_double x = x"
  using assms ulp_pos [of x] by (simp add: round_double_def) (simp add: field_simps)

lemma pow2_diff: "pow2 a / pow2 b = pow2 (a - b)"
proof -
  have "pow2 (a - b) * pow2 b = pow2 a" by (simp add: pow2_add [symmetric])
  then show ?thesis using pow2_pos [of b] by (simp add: field_simps)
qed

lemma ilog2_less:
  assumes "0 < r" "r < pow2 e"
  shows "ilog2 r < e"
proof (rule ccontr)
  assume "\<not> ilog2 r < e"
  then have "pow2 e \<le> pow2 (ilog2 r)" by (intro pow2_mono) simp
  then show False using ilog2_bounds [OF assms(1)] assms(2) by simp
qed

lemma fexp_ge: "- 1022 \<le> fexp x"
  by (simp add: fexp_def)

lemma round_double_idem_pos:
  assumes "0 < x"
  shows "round_double (round_double x) = round_double x"
proof -
  define n where "n = round_half_even (x / ulp x)"
  define r where "r = round_double x"
  have r: "r = of_int n * ulp x" using assms by (simp add: r_def n_def round_double_pos_eq)
  have n0: "0 \<le> n" using assms significand_nonneg [of x] by (simp add: n_def)
  have n1: "n \<le> 9007199254740992" using significand_le [OF assms] by (simp add: n_def)
  consider "n = 0" | "0 < n" "n < 9007199254740992" | "n = 9007199254740992"
    using n0 n1 by linarith
  then have "round_double r = r"
  proof cases
    case 1
    then show ?thesis by (simp add: r round_double_def)
  next
    case 2
    have rpos: "0 < r" using 2(1) ulp_pos [of x] by (simp add: r)
    have "(of_int n :: rat) < 9007199254740992" using 2(2) by (metis of_int_less_iff of_int_numeral)
    then have "r < 9007199254740992 * ulp x" using ulp_pos [of x] by (simp add: r)
    then have "r < pow2 (fexp x + 1)" by (simp add: pow2_53 ulp_fexp)
    then have "ilog2 r < fexp x + 1" using rpos by (intro ilog2_less)
    then have le: "fexp r \<le> fexp x" using rpos fexp_ge [of x] by (simp add: fexp_def)
    have "r / ulp r = of_int n * (pow2 (fexp x - 52) / pow2 (fexp r - 52))"
      by (simp add: r ulp_fexp)
    also have "\<dots> = of_int n * pow2 (int (nat (fexp x - fexp r)))"
      using le by (simp add: pow2_diff)
    also have "\<dots> = of_int (n * 2 ^ nat (fexp x - fexp r))"
      by (simp only: pow2_nat) simp
    finally show ?thesis by (rule round_double_exact)
  next
    case 3
    then have rp: "r = pow2 (fexp x + 1)" by (simp add: r pow2_53 ulp_fexp)
    have rpos: "0 < r" by (simp add: rp pow2_pos)
    have "pow2 (fexp x + 1) \<le> r" "r < pow2 (fexp x + 1 + 1)"
      using pow2_less_mono [of "fexp x + 1" "fexp x + 1 + 1"] by (simp_all add: rp)
    then have "ilog2 r = fexp x + 1" by (rule ilog2_unique)
    then have fr: "fexp r = fexp x + 1" using rpos fexp_ge [of x] by (simp add: fexp_def)
    have "ulp r = pow2 (fexp x + 1 - 52)" by (simp only: ulp_fexp fr)
    then have "r / ulp r = pow2 (fexp x + 1) / pow2 (fexp x + 1 - 52)" by (simp only: rp)
    also have "\<dots> = pow2 52" by (simp add: pow2_diff)
    also have "\<dots> = of_int 4503599627370496" by (simp add: pow2_def)
    finally show ?thesis by (rule round_double_exact)
  qed
  then show ?thesis by (simp add: r_def)
qed

lemma round_double_idem_nonneg: "0 \<le> x \<Longrightarrow> round_double (round_double x) = round_double x"
  using round_double_idem_pos [of x] by (cases "x = 0") (simp_all add: round_double_def)

lemma float_add_ge:
  assumes "round_double t = t" "0 \<le> t" "0 \<le> x"
  shows "t \<le> float_add t x \<and> round_double (float_add t x) = float_add t x"
proof -
  have "round_double t \<le> round_double (t + x)" using assms by (intro round_double_mono_nonneg) simp_all
  moreover have "round_double (round_double (t + x)) = round_double (t + x)"
    using assms by (intro round_double_idem_nonneg) simp
  ultimately show ?thesis using assms(1) by (simp add: float_add_def)
qed

section \<open>Properties of the damage aggregator\<close>

lemma map_fst_modify [simp]: "map fst (modify k f st) = map fst st"
  by (induction st) auto

lemma map_of_modify:
  "map_of (modify k f st) k' = (if k' = k then map_option f (map_of st k) else map_of st k')"
  by (induction st) auto

lemma map_of_ensure:
  "map_of (ensure k st) k' =
     (if k' = k \<and> k \<notin> fst ` set st then Some \<lparr>userDamage = 0, bossDamage = 0\<rparr> else map_of st k')"
proof (cases "k \<in> fst ` set st")
  case True
  then show ?thesis by (simp add: ensure_def)
next
  case False
  then have "map_of st k = None" by (simp add: map_of_eq_None_iff)
  then show ?thesis using False by (auto simp: ensure_def map_add_def split: option.splits)
qed

lemma map_fst_ensure:
  "map fst (ensure k st) = (if k \<in> set (map fst st) then map fst st else map fst st @ [k])"
  by (simp add: ensure_def)

lemma add_field_keys: "add_field add P k upd v st = Inr st' \<Longrightarrow> map fst st' = map fst st"
  by (auto simp: add_field_def split: if_splits sum.splits)

lemma try_block_keys: "try_block add P k u b st = Inr st' \<Longrightarrow> map fst st' = map fst st"
  unfolding try_block_def
  by (auto split: if_splits sum.splits dest!: add_field_keys)

lemma add_field_isl: "isl (add_field add P k upd v st) = isl (add_field add' P k' upd' v st')"
  by (auto simp: add_field_def split: sum.splits)

lemma add_field_err: "add_field add P k upd v st = Inl e \<Longrightarrow> add_field add' P k' upd' v st' = Inl e"
  by (auto simp: add_field_def split: sum.splits if_splits)

lemma add_field_ok: "add_field add P k upd v st = Inr s \<Longrightarrow> \<exists>s'. add_field add' P k' upd' v st' = Inr s'"
  by (auto simp: add_field_def split: sum.splits if_splits)

lemma try_block_ok:
  "try_block add P k u b st = Inr s \<Longrightarrow> \<exists>s'. try_block add' P k' u b st' = Inr s'"
  unfolding try_block_def
  apply (cases "add_field add P k userDamage_update u st")
  subgoal for e
    using add_field_err [of add P k userDamage_update u st e add' k' userDamage_update st']
    by (auto split: if_splits)
  subgoal for s1
    using add_field_ok [of add P k userDamage_update u st s1 add' k' userDamage_update st']
    apply (cases "add_field add P k bossDamage_update b s1")
    subgoal for e
      apply clarsimp
      subgoal for s1'
        using add_field_err [of add P k bossDamage_update b s1 e add' k' bossDamage_update s1']
        by (auto split: if_splits)
      done
    subgoal for s2
      apply clarsimp
      subgoal for s1'
        using add_field_ok [of add P k bossDamage_update b s1 s2 add' k' bossDamage_update s1']
        by auto
      done
    done
  done

lemma damage_step_ok:
  "damage_step add P st m = Inr s \<Longrightarrow> \<exists>s'. damage_step add' P st' m = Inr s'"
  unfolding damage_step_def Let_def
  by (auto split: sum.splits if_splits dest: try_block_ok)

lemma modify_modify: "modify k f (modify k g st) = modify k (f \<circ> g) st"
  by (induction st) auto

lemma modify_cong: "(\<And>s. f s = g s) \<Longrightarrow> modify k f st = modify k g st"
  by (induction st) auto

lemma modify_id: "(\<And>s. f s = s) \<Longrightarrow> modify k f st = st"
  by (induction st) auto

lemma add_field_ud:
  assumes "add_field add P k userDamage_update v st = Inr st'"
  shows "st' = modify k (userDamage_update (ud_op add P v)) st"
proof (cases "v = PNone")
  case True
  then have "ud_op add P v = (\<lambda>t. t)" by (auto simp: ud_op_def)
  then have "modify k (userDamage_update (ud_op add P v)) st = st" by (intro modify_id) simp
  then show ?thesis using assms True by (simp add: add_field_def)
next
  case False
  then obtain x where x: "py_float P v = Inr x" using assms by (auto simp: add_field_def split: sum.splits)
  then have "ud_op add P v = (\<lambda>t. add t x)" using False by (auto simp: ud_op_def)
  then show ?thesis using assms False x by (simp add: add_field_def)
qed

lemma add_field_bd:
  assumes "add_field add P k bossDamage_update v st = Inr st'"
    and "\<not> (u \<noteq> PNone \<and> isl (py_float P u))"
  shows "st' = modify k (bossDamage_update (bd_op add P u v)) st"
proof (cases "v = PNone")
  case True
  then have "bd_op add P u v = (\<lambda>t. t)" by (auto simp: bd_op_def)
  then have "modify k (bossDamage_update (bd_op add P u v)) st = st" by (intro modify_id) simp
  then show ?thesis using assms True by (simp add: add_field_def)
next
  case False
  then obtain x where x: "py_float P v = Inr x" using assms by (auto simp: add_field_def split: sum.splits)
  then have "bd_op add P u v = (\<lambda>t. add t x)" using False assms(2) by (auto simp: bd_op_def)
  then show ?thesis using assms False x by (simp add: add_field_def)
qed

lemma try_block_effect:
  assumes "try_block add P k (field m ''userDamage'') (field m ''bossDamage'') st = Inr st'"
  shows "st' = modify k (block_op add P m) st"
proof -
  let ?u = "field m ''userDamage''" and ?b = "field m ''bossDamage''"
  show ?thesis
  proof (cases "add_field add P k userDamage_update ?u st")
    case (Inl e)
    then have "st' = st" using assms by (auto simp: try_block_def split: if_splits)
    moreover have "?u \<noteq> PNone \<and> isl (py_float P ?u)"
      using Inl by (auto simp: add_field_def split: if_splits sum.splits)
    then have "\<And>s. block_op add P m s = s"
      by (auto simp: block_op_def ud_op_def bd_op_def split: sum.splits)
    then have "modify k (block_op add P m) st = st" by (rule modify_id)
    ultimately show ?thesis by simp
  next
    case (Inr st1)
    then have st1: "st1 = modify k (userDamage_update (ud_op add P ?u)) st"
      by (rule add_field_ud)
    have nu: "\<not> (?u \<noteq> PNone \<and> isl (py_float P ?u))"
      using Inr by (auto simp: add_field_def split: if_splits sum.splits)
    show ?thesis
    proof (cases "add_field add P k bossDamage_update ?b st1")
      case (Inl e)
      then have "st' = st1" using assms Inr by (auto simp: try_block_def split: if_splits)
      moreover have "?b \<noteq> PNone \<and> isl (py_float P ?b)"
        using Inl by (auto simp: add_field_def split: if_splits sum.splits)
      then have "\<And>s. block_op add P m s = userDamage_update (ud_op add P ?u) s"
        using nu by (auto simp: block_op_def bd_op_def split: sum.splits)
      then have "modify k (block_op add P m) st = modify k (userDamage_update (ud_op add P ?u)) st"
        by (rule modify_cong)
      ultimately show ?thesis using st1 by simp
    next
      case (Inr st2)
      then have "st' = st2" using assms \<open>add_field add P k userDamage_update ?u st = Inr st1\<close>
        by (auto simp: try_block_def)
      moreover have "st2 = modify k (bossDamage_update (bd_op add P ?u ?b)) st1"
        using Inr nu by (rule add_field_bd)
      moreover have "\<And>s. (bossDamage_update (bd_op add P ?u ?b) \<circ> userDamage_update (ud_op add P ?u)) s
          = block_op add P m s"
        by (simp add: block_op_def)
      then have "modify k (bossDamage_update (bd_op add P ?u ?b) \<circ> userDamage_update (ud_op add P ?u)) st
          = modify k (block_op add P m) st" by (rule modify_cong)
      ultimately show ?thesis using st1 by (simp add: modify_modify)
    qed
  qed
qed

lemma damage_step_effect:
  assumes "damage_step add P st m = Inr st'"
  shows "st' = (case actor m of None \<Rightarrow> st | Some k \<Rightarrow> modify k (block_op add P m) (ensure k st))"
  using assms unfolding damage_step_def actor_def Let_def
  by (auto split: sum.splits if_splits dest: try_block_effect)

lemma damage_loop_append:
  "damage_loop add P st (xs @ ys) =
     (case damage_loop add P st xs of Inl e \<Rightarrow> Inl e | Inr st1 \<Rightarrow> damage_loop add P st1 ys)"
  by (induction xs arbitrary: st) (auto split: sum.splits)

lemma damage_loop_ok_iff:
  "(\<exists>st'. damage_loop add P st ms = Inr st') \<longleftrightarrow> (\<forall>m\<in>set ms. \<exists>s. damage_step (+) P [] m = Inr s)"
proof (induction ms arbitrary: st)
  case Nil
  then show ?case by simp
next
  case (Cons m ms)
  show ?case
  proof (cases "damage_step add P st m")
    case (Inl e)
    have "\<not> (\<exists>s. damage_step (+) P [] m = Inr s)"
    proof
      assume "\<exists>s. damage_step (+) P [] m = Inr s"
      then obtain s where "damage_step (+) P [] m = Inr s" ..
      from damage_step_ok [OF this, of add st] show False using Inl by simp
    qed
    then show ?thesis using Inl by simp
  next
    case (Inr st1)
    from damage_step_ok [OF this, of "(+)" "[]"] show ?thesis using Inr Cons.IH [of st1] by simp
  qed
qed

lemma map_of_step:
  "map_of (modify k f (ensure k st)) k' =
     (if k' = k then Some (f (case map_of st k of None \<Rightarrow> \<lparr>userDamage = 0, bossDamage = 0\<rparr> | Some s \<Rightarrow> s))
      else map_of st k')"
proof (cases "k \<in> fst ` set st")
  case True
  then obtain s where "map_of st k = Some s" by (metis map_of_eq_None_iff not_None_eq)
  then show ?thesis using True by (simp add: map_of_modify map_of_ensure)
next
  case False
  then have "map_of st k = None" by (simp add: map_of_eq_None_iff)
  then show ?thesis using False by (simp add: map_of_modify map_of_ensure)
qed

lemma keys_step: "fst ` set (modify k f (ensure k st)) = insert k (fst ` set st)"
proof -
  have "fst ` set (modify k f (ensure k st)) = set (map fst (modify k f (ensure k st)))"
    by (simp only: set_map)
  also have "\<dots> = set (map fst (ensure k st))" by (simp only: map_fst_modify)
  also have "\<dots> = insert k (fst ` set st)" by (auto simp: map_fst_ensure)
  finally show ?thesis .
qed

lemma block_op_exact:
  "block_op (+) P m s = \<lparr>userDamage = userDamage s + user_contrib P m, bossDamage = bossDamage s + boss_contrib P m\<rparr>"
  by (auto simp: block_op_def user_contrib_def boss_contrib_def ud_op_def bd_op_def split: sum.splits)

lemma exact_step_totals:
  assumes "damage_step (+) P st m = Inr st'"
  shows "totals st' k =
     (if actor m = Some k then (fst (totals st k) + user_contrib P m, snd (totals st k) + boss_contrib P m) else totals st k)"
    and "fst ` set st' = fst ` set st \<union> set_option (actor m)"
  using damage_step_effect [OF assms]
  by (auto simp: totals_def map_of_step block_op_exact keys_step split: option.splits)

lemma exact_loop_totals:
  assumes "damage_loop (+) P st ms = Inr st'"
  shows "fst (totals st' k) = fst (totals st k) + sum_list (map (\<lambda>m. if actor m = Some k then user_contrib P m else 0) ms)
       \<and> snd (totals st' k) = snd (totals st k) + sum_list (map (\<lambda>m. if actor m = Some k then boss_contrib P m else 0) ms)
       \<and> fst ` set st' = fst ` set st \<union> set (actors ms)"
  using assms
proof (induction ms arbitrary: st)
  case Nil
  then show ?case by (simp add: actors_def)
next
  case (Cons m ms)
  then obtain st1 where s: "damage_step (+) P st m = Inr st1" and l: "damage_loop (+) P st1 ms = Inr st'"
    by (auto split: sum.splits)
  show ?case using Cons.IH [OF l] exact_step_totals(1) [OF s, of k] exact_step_totals(2) [OF s]
    by (auto simp: actors_def map_filter_simps split: option.splits)
qed

lemma sum_list_perm:
  fixes f :: "'a \<Rightarrow> rat"
  assumes "mset xs = mset ys"
  shows "sum_list (map f xs) = sum_list (map f ys)"
proof -
  have "sum_list (map f xs) = sum_mset (mset (map f xs))" by (simp only: sum_mset_sum_list)
  also have "\<dots> = sum_mset (mset (map f ys))" using assms by simp
  also have "\<dots> = sum_list (map f ys)" by (simp only: sum_mset_sum_list)
  finally show ?thesis .
qed

lemma set_actors: "set (actors ms) = {k. \<exists>m\<in>set ms. actor m = Some k}"
  by (induction ms) (auto simp: actors_def split: option.splits)

lemma stat_eqI: "userDamage s = userDamage s' \<Longrightarrow> bossDamage s = bossDamage s' \<Longrightarrow> s = (s' :: stat)"
  by simp

lemma map_of_eq_totals:
  assumes "totals d k = totals d' k" "fst ` set d = fst ` set d'"
  shows "map_of d k = map_of d' k"
proof (cases "k \<in> fst ` set d")
  case False
  then show ?thesis using assms(2) by (simp add: map_of_eq_None_iff [THEN iffD2])
next
  case True
  then obtain s s' where "map_of d k = Some s" "map_of d' k = Some s'"
    using assms(2) by (metis map_of_eq_None_iff not_None_eq)
  then show ?thesis using assms(1) by (simp add: totals_def)
qed

lemma loop_keys:
  assumes "damage_loop add P st ms = Inr st'"
  shows "fst ` set st' = fst ` set st \<union> set (actors ms)"
  using assms
proof (induction ms arbitrary: st)
  case Nil
  then show ?case by (simp add: actors_def)
next
  case (Cons m ms)
  then obtain st1 where s: "damage_step add P st m = Inr st1" and l: "damage_loop add P st1 ms = Inr st'"
    by (auto split: sum.splits)
  have "fst ` set st1 = fst ` set st \<union> set_option (actor m)"
    using damage_step_effect [OF s] by (auto simp: keys_step split: option.splits)
  then show ?case using Cons.IH [OF l] by (auto simp: actors_def split: option.splits)
qed

lemma perm_returns:
  assumes "mset xs = mset ys" "damage_loop add P st xs = Inr dx"
  shows "\<exists>dy. damage_loop add' P st' ys = Inr dy"
proof -
  have "\<forall>m\<in>set xs. \<exists>s. damage_step (+) P [] m = Inr s"
    using assms(2) damage_loop_ok_iff [of add P st xs] by blast
  moreover have "set xs = set ys" using assms(1) by (rule mset_eq_setD)
  ultimately show ?thesis using damage_loop_ok_iff [of add' P st' ys] by blast
qed

lemma exact_perm_totals:
  assumes "mset xs = mset ys" "aggregate_exact P xs = Inr dx" "aggregate_exact P ys = Inr dy"
  shows "totals dy k = totals dx k"
proof -
  note x = exact_loop_totals [OF assms(2) [unfolded aggregate_exact_def], of k]
  note y = exact_loop_totals [OF assms(3) [unfolded aggregate_exact_def], of k]
  have "fst (totals dy k) = fst (totals dx k)" "snd (totals dy k) = snd (totals dx k)"
    using x y sum_list_perm [OF assms(1)] by simp_all
  then show ?thesis by (simp add: prod_eq_iff)
qed

lemma exact_append_totals:
  assumes "aggregate_exact P xs = Inr dx" "aggregate_exact P zs = Inr dz"
    "aggregate_exact P (xs @ zs) = Inr d"
  shows "totals d k = (fst (totals dx k) + fst (totals dz k), snd (totals dx k) + snd (totals dz k))"
proof -
  note x = exact_loop_totals [OF assms(1) [unfolded aggregate_exact_def], of k]
  note z = exact_loop_totals [OF assms(2) [unfolded aggregate_exact_def], of k]
  note a = exact_loop_totals [OF assms(3) [unfolded aggregate_exact_def], of k]
  show ?thesis using x z a by (simp add: prod_eq_iff totals_def)
qed

text \<open>
  C6, amended. When the aggregator returns on a list it returns on every permutation of
  the list, with the same actors. The totals of each actor are the same, and the totals
  of a concatenation are the sums of the totals of its two parts, when no addition of
  the runs compared rounds (\<open>exact_run\<close>: the float totals are the exact sums).
\<close>

theorem aggregate_permutation:
  assumes "mset xs = mset ys" and "aggregate_user_damage P xs = Inr dx"
  shows "\<exists>dy. aggregate_user_damage P ys = Inr dy
     \<and> fst ` set dy = fst ` set dx
     \<and> (exact_run P xs \<and> exact_run P ys \<longrightarrow> (\<forall>k. map_of dy k = map_of dx k))
     \<and> (\<forall>zs dz. aggregate_user_damage P zs = Inr dz \<longrightarrow>
          (\<exists>d. aggregate_user_damage P (xs @ zs) = Inr d
             \<and> (exact_run P xs \<and> exact_run P zs \<and> exact_run P (xs @ zs) \<longrightarrow>
                  (\<forall>k. totals d k =
                     (fst (totals dx k) + fst (totals dz k), snd (totals dx k) + snd (totals dz k))))))"
proof -
  obtain dy where dy: "aggregate_user_damage P ys = Inr dy"
    using perm_returns [OF assms(1) assms(2) [unfolded aggregate_user_damage_def]]
    unfolding aggregate_user_damage_def by blast
  have sets: "set (actors xs) = set (actors ys)"
    using mset_eq_setD [OF assms(1)] by (simp add: set_actors)
  have keys: "fst ` set dy = fst ` set dx"
    using loop_keys [OF dy [unfolded aggregate_user_damage_def]]
      loop_keys [OF assms(2) [unfolded aggregate_user_damage_def]] sets by simp
  have perm: "exact_run P xs \<and> exact_run P ys \<longrightarrow> (\<forall>k. map_of dy k = map_of dx k)"
  proof (intro impI allI)
    fix k
    assume "exact_run P xs \<and> exact_run P ys"
    then have "aggregate_exact P xs = Inr dx" "aggregate_exact P ys = Inr dy"
      using assms(2) dy by (simp_all add: exact_run_def)
    then have "totals dy k = totals dx k" using assms(1) by (intro exact_perm_totals)
    then show "map_of dy k = map_of dx k" using keys by (rule map_of_eq_totals)
  qed
  have part: "\<forall>zs dz. aggregate_user_damage P zs = Inr dz \<longrightarrow>
          (\<exists>d. aggregate_user_damage P (xs @ zs) = Inr d
             \<and> (exact_run P xs \<and> exact_run P zs \<and> exact_run P (xs @ zs) \<longrightarrow>
                  (\<forall>k. totals d k =
                     (fst (totals dx k) + fst (totals dz k), snd (totals dx k) + snd (totals dz k)))))"
  proof (intro allI impI)
    fix zs dz
    assume dz: "aggregate_user_damage P zs = Inr dz"
    obtain d where d: "damage_loop float_add P dx zs = Inr d"
      using perm_returns [OF refl dz [unfolded aggregate_user_damage_def], of float_add dx] by blast
    then have d': "aggregate_user_damage P (xs @ zs) = Inr d"
      using assms(2) by (simp add: aggregate_user_damage_def damage_loop_append)
    have "exact_run P xs \<and> exact_run P zs \<and> exact_run P (xs @ zs) \<longrightarrow>
                  (\<forall>k. totals d k =
                     (fst (totals dx k) + fst (totals dz k), snd (totals dx k) + snd (totals dz k)))"
    proof (intro impI allI)
      fix k
      assume "exact_run P xs \<and> exact_run P zs \<and> exact_run P (xs @ zs)"
      then have "aggregate_exact P xs = Inr dx" "aggregate_exact P zs = Inr dz"
        "aggregate_exact P (xs @ zs) = Inr d"
        using assms(2) dz d' by (simp_all add: exact_run_def)
      then show "totals d k =
          (fst (totals dx k) + fst (totals dz k), snd (totals dx k) + snd (totals dz k))"
        by (rule exact_append_totals)
    qed
    then show "\<exists>d. aggregate_user_damage P (xs @ zs) = Inr d
             \<and> (exact_run P xs \<and> exact_run P zs \<and> exact_run P (xs @ zs) \<longrightarrow>
                  (\<forall>k. totals d k =
                     (fst (totals dx k) + fst (totals dz k), snd (totals dx k) + snd (totals dz k))))"
      using d' by blast
  qed
  show ?thesis using dy keys perm part by blast
qed

lemma round_double_0 [simp]: "round_double 0 = 0"
  by (simp add: round_double_def)

lemma good_ensure: "floats_nonneg st \<Longrightarrow> floats_nonneg (ensure k st)"
  by (auto simp: floats_nonneg_def ensure_def)

lemma good_modify:
  assumes "floats_nonneg st"
    and "\<And>s. 0 \<le> userDamage s \<and> round_double (userDamage s) = userDamage s
      \<and> 0 \<le> bossDamage s \<and> round_double (bossDamage s) = bossDamage s \<Longrightarrow>
      0 \<le> userDamage (f s) \<and> round_double (userDamage (f s)) = userDamage (f s)
      \<and> 0 \<le> bossDamage (f s) \<and> round_double (bossDamage (f s)) = bossDamage (f s)"
  shows "floats_nonneg (modify k f st)"
  using assms(1)
proof (induction st)
  case Nil
  then show ?case by (simp add: floats_nonneg_def)
next
  case (Cons p st)
  obtain k' s where p: "p = (k', s)" by (cases p)
  have g: "floats_nonneg st" using Cons.prems by (simp add: floats_nonneg_def)
  show ?case
  proof (cases "k = k'")
    case True
    then show ?thesis using Cons.prems assms(2) [of s] by (simp add: p floats_nonneg_def)
  next
    case False
    then show ?thesis using Cons.prems Cons.IH [OF g] by (simp add: p floats_nonneg_def)
  qed
qed

lemma ud_op_ge:
  assumes "nonneg_value P u" "0 \<le> t" "round_double t = t"
  shows "t \<le> ud_op float_add P u t \<and> round_double (ud_op float_add P u t) = ud_op float_add P u t"
  using assms float_add_ge [of t]
  by (auto simp: ud_op_def nonneg_value_def split: sum.splits)

lemma bd_op_ge:
  assumes "nonneg_value P b" "0 \<le> t" "round_double t = t"
  shows "t \<le> bd_op float_add P u b t \<and> round_double (bd_op float_add P u b t) = bd_op float_add P u b t"
  using assms float_add_ge [of t]
  by (auto simp: bd_op_def nonneg_value_def split: sum.splits)

lemma block_op_ge:
  assumes "nonneg_values P m"
    and "0 \<le> userDamage s \<and> round_double (userDamage s) = userDamage s
      \<and> 0 \<le> bossDamage s \<and> round_double (bossDamage s) = bossDamage s"
  shows "userDamage s \<le> userDamage (block_op float_add P m s)
     \<and> round_double (userDamage (block_op float_add P m s)) = userDamage (block_op float_add P m s)
     \<and> bossDamage s \<le> bossDamage (block_op float_add P m s)
     \<and> round_double (bossDamage (block_op float_add P m s)) = bossDamage (block_op float_add P m s)"
  using assms ud_op_ge [of P "field m ''userDamage''" "userDamage s"]
    bd_op_ge [of P "field m ''bossDamage''" "bossDamage s" "field m ''userDamage''"]
  by (simp add: block_op_def nonneg_values_def)

lemma good_map_of: "floats_nonneg st \<Longrightarrow> map_of st k = Some s \<Longrightarrow>
   0 \<le> userDamage s \<and> round_double (userDamage s) = userDamage s
      \<and> 0 \<le> bossDamage s \<and> round_double (bossDamage s) = bossDamage s"
  by (auto simp: floats_nonneg_def dest!: map_of_SomeD)

lemma nonneg_step:
  assumes "floats_nonneg st" "nonneg_values P m" "damage_step float_add P st m = Inr st'"
  shows "floats_nonneg st' \<and> (\<forall>k s. map_of st k = Some s \<longrightarrow>
      (\<exists>s'. map_of st' k = Some s' \<and> userDamage s \<le> userDamage s' \<and> bossDamage s \<le> bossDamage s'))"
proof (cases "actor m")
  case None
  then show ?thesis using damage_step_effect [OF assms(3)] assms(1) by simp
next
  case (Some k0)
  then have st': "st' = modify k0 (block_op float_add P m) (ensure k0 st)"
    using damage_step_effect [OF assms(3)] by simp
  have g: "floats_nonneg st'" unfolding st'
  proof (rule good_modify [OF good_ensure [OF assms(1)]])
    fix s :: stat
    assume a: "0 \<le> userDamage s \<and> round_double (userDamage s) = userDamage s
      \<and> 0 \<le> bossDamage s \<and> round_double (bossDamage s) = bossDamage s"
    from block_op_ge [OF assms(2) a] a
    show "0 \<le> userDamage (block_op float_add P m s)
      \<and> round_double (userDamage (block_op float_add P m s)) = userDamage (block_op float_add P m s)
      \<and> 0 \<le> bossDamage (block_op float_add P m s)
      \<and> round_double (bossDamage (block_op float_add P m s)) = bossDamage (block_op float_add P m s)"
      by linarith
  qed
  have "\<forall>k s. map_of st k = Some s \<longrightarrow>
      (\<exists>s'. map_of st' k = Some s' \<and> userDamage s \<le> userDamage s' \<and> bossDamage s \<le> bossDamage s')"
  proof (intro allI impI)
    fix k s
    assume ks: "map_of st k = Some s"
    show "\<exists>s'. map_of st' k = Some s' \<and> userDamage s \<le> userDamage s' \<and> bossDamage s \<le> bossDamage s'"
    proof (cases "k = k0")
      case True
      then have "map_of st' k = Some (block_op float_add P m s)" using ks by (simp add: st' map_of_step)
      then show ?thesis using block_op_ge [OF assms(2) good_map_of [OF assms(1) ks]] by simp
    next
      case False
      then show ?thesis using ks by (simp add: st' map_of_step)
    qed
  qed
  then show ?thesis using g by simp
qed

lemma nonneg_loop:
  assumes "floats_nonneg st" "\<forall>m\<in>set ms. nonneg_values P m" "damage_loop float_add P st ms = Inr st'"
  shows "floats_nonneg st' \<and> (\<forall>k s. map_of st k = Some s \<longrightarrow>
      (\<exists>s'. map_of st' k = Some s' \<and> userDamage s \<le> userDamage s' \<and> bossDamage s \<le> bossDamage s'))"
  using assms
proof (induction ms arbitrary: st)
  case Nil
  then show ?case by simp
next
  case (Cons m ms)
  then obtain st1 where s: "damage_step float_add P st m = Inr st1"
    and l: "damage_loop float_add P st1 ms = Inr st'"
    by (auto split: sum.splits)
  have nm: "nonneg_values P m" and nms: "\<forall>m\<in>set ms. nonneg_values P m" using Cons.prems(2) by simp_all
  note step = nonneg_step [OF Cons.prems(1) nm s]
  note rest = Cons.IH [OF conjunct1 [OF step] nms l]
  show ?case
  proof (intro conjI allI impI)
    show "floats_nonneg st'" using rest by simp
  next
    fix k s
    assume "map_of st k = Some s"
    then obtain s1 where s1: "map_of st1 k = Some s1" "userDamage s \<le> userDamage s1"
      "bossDamage s \<le> bossDamage s1" using step by blast
    then obtain s' where "map_of st' k = Some s'" "userDamage s1 \<le> userDamage s'"
      "bossDamage s1 \<le> bossDamage s'" using rest by blast
    then show "\<exists>s'. map_of st' k = Some s' \<and> userDamage s \<le> userDamage s' \<and> bossDamage s \<le> bossDamage s'"
      using s1 by force
  qed
qed

text \<open>C9 amended\<close>
text \<open>
  C9, amended. When every value that \<open>float\<close> accepts in the messages is at least zero,
  the totals of each actor after a prefix of the messages are at least zero and are not
  above its totals after the whole list. A value that \<open>float\<close> does not accept leaves the
  total of its own field as it was.
\<close>

theorem totals_nondecreasing:
  assumes "\<forall>m\<in>set (pre @ post). nonneg_values P m"
    and "aggregate_user_damage P pre = Inr st1"
    and "aggregate_user_damage P (pre @ post) = Inr st2"
  shows "(\<forall>k s1. map_of st1 k = Some s1 \<longrightarrow>
      (\<exists>s2. map_of st2 k = Some s2
         \<and> 0 \<le> userDamage s1 \<and> userDamage s1 \<le> userDamage s2
         \<and> 0 \<le> bossDamage s1 \<and> bossDamage s1 \<le> bossDamage s2))
    \<and> (\<forall>m k st st'. actor m = Some k \<and> damage_step float_add P st m = Inr st' \<longrightarrow>
         (isl (py_float P (field m ''userDamage'')) \<longrightarrow> fst (totals st' k) = fst (totals st k))
       \<and> (isl (py_float P (field m ''bossDamage'')) \<longrightarrow> snd (totals st' k) = snd (totals st k)))"
proof -
  have g0: "floats_nonneg []" by (simp add: floats_nonneg_def)
  have n1: "\<forall>m\<in>set pre. nonneg_values P m" and n2: "\<forall>m\<in>set post. nonneg_values P m"
    using assms(1) by simp_all
  have l1: "damage_loop float_add P [] pre = Inr st1" using assms(2) by (simp add: aggregate_user_damage_def)
  then have l2: "damage_loop float_add P st1 post = Inr st2"
    using assms(3) by (simp add: aggregate_user_damage_def damage_loop_append)
  have g1: "floats_nonneg st1" using nonneg_loop [OF g0 n1 l1] by simp
  have a: "\<forall>k s1. map_of st1 k = Some s1 \<longrightarrow>
      (\<exists>s2. map_of st2 k = Some s2
         \<and> 0 \<le> userDamage s1 \<and> userDamage s1 \<le> userDamage s2
         \<and> 0 \<le> bossDamage s1 \<and> bossDamage s1 \<le> bossDamage s2)"
    using nonneg_loop [OF g1 n2 l2] good_map_of [OF g1] by blast
  have b: "\<forall>m k st st'. actor m = Some k \<and> damage_step float_add P st m = Inr st' \<longrightarrow>
         (isl (py_float P (field m ''userDamage'')) \<longrightarrow> fst (totals st' k) = fst (totals st k))
       \<and> (isl (py_float P (field m ''bossDamage'')) \<longrightarrow> snd (totals st' k) = snd (totals st k))"
  proof (intro allI impI)
    fix m k st st'
    assume h: "actor m = Some k \<and> damage_step float_add P st m = Inr st'"
    then have st': "st' = modify k (block_op float_add P m) (ensure k st)"
      using damage_step_effect [of float_add P st m st'] by simp
    show "(isl (py_float P (field m ''userDamage'')) \<longrightarrow> fst (totals st' k) = fst (totals st k))
       \<and> (isl (py_float P (field m ''bossDamage'')) \<longrightarrow> snd (totals st' k) = snd (totals st k))"
      by (auto simp: st' totals_def map_of_step block_op_def ud_op_def bd_op_def
          split: option.splits sum.splits)
  qed
  show ?thesis using a b by blast
qed

text \<open>
  C6, as the claim states it, fails: the totals depend on the order of the messages,
  because the addition of floats rounds. The damages 0.1, 0.2 and 0.3 (the floats nearest
  to them) of one actor add up to 0.6000000000000001 in this order and to 0.6 in the
  reverse order; the damages \<open>2 ^ 53\<close>, 1 and 1 add up to \<open>2 ^ 53\<close> in this order and to
  \<open>2 ^ 53 + 2\<close> with the large one last.
\<close>

theorem aggregate_order_dependent:
  "mset [damage_event ''a'' (PFloat (3602879701896397 / 36028797018963968)) PNone,
         damage_event ''a'' (PFloat (3602879701896397 / 18014398509481984)) PNone,
         damage_event ''a'' (PFloat (5404319552844595 / 18014398509481984)) PNone]
   = mset [damage_event ''a'' (PFloat (5404319552844595 / 18014398509481984)) PNone,
         damage_event ''a'' (PFloat (3602879701896397 / 18014398509481984)) PNone,
         damage_event ''a'' (PFloat (3602879701896397 / 36028797018963968)) PNone]
   \<and> aggregate_user_damage no_parse
        [damage_event ''a'' (PFloat (3602879701896397 / 36028797018963968)) PNone,
         damage_event ''a'' (PFloat (3602879701896397 / 18014398509481984)) PNone,
         damage_event ''a'' (PFloat (5404319552844595 / 18014398509481984)) PNone]
      = Inr [(KStr (ascii ''a''),
              \<lparr>userDamage = 5404319552844596 / 9007199254740992, bossDamage = 0\<rparr>)]
   \<and> aggregate_user_damage no_parse
        [damage_event ''a'' (PFloat (5404319552844595 / 18014398509481984)) PNone,
         damage_event ''a'' (PFloat (3602879701896397 / 18014398509481984)) PNone,
         damage_event ''a'' (PFloat (3602879701896397 / 36028797018963968)) PNone]
      = Inr [(KStr (ascii ''a''),
              \<lparr>userDamage = 5404319552844595 / 9007199254740992, bossDamage = 0\<rparr>)]
   \<and> aggregate_user_damage no_parse
        [damage_event ''a'' (PInt 9007199254740992) PNone, damage_event ''a'' (PInt 1) PNone,
         damage_event ''a'' (PInt 1) PNone]
      = Inr [(KStr (ascii ''a''), \<lparr>userDamage = 9007199254740992, bossDamage = 0\<rparr>)]
   \<and> aggregate_user_damage no_parse
        [damage_event ''a'' (PInt 1) PNone, damage_event ''a'' (PInt 1) PNone,
         damage_event ''a'' (PInt 9007199254740992) PNone]
      = Inr [(KStr (ascii ''a''), \<lparr>userDamage = 9007199254740994, bossDamage = 0\<rparr>)]"
  by code_simp

theorem aggregate_permutation_witness:
  "exact_run no_parse [damage_event ''a'' (PInt 1) (PInt 4), damage_event ''b'' (PInt 2) PNone]
   \<and> exact_run no_parse [damage_event ''b'' (PInt 2) PNone, damage_event ''a'' (PInt 1) (PInt 4)]
   \<and> (\<exists>dy. aggregate_user_damage no_parse
          [damage_event ''b'' (PInt 2) PNone, damage_event ''a'' (PInt 1) (PInt 4)] = Inr dy
        \<and> (\<forall>k. map_of dy k =
             map_of [(KStr (ascii ''a''), \<lparr>userDamage = 1, bossDamage = 4\<rparr>),
                     (KStr (ascii ''b''), \<lparr>userDamage = 2, bossDamage = 0\<rparr>)] k))"
proof -
  have h1: "mset [damage_event ''a'' (PInt 1) (PInt 4), damage_event ''b'' (PInt 2) PNone]
      = mset [damage_event ''b'' (PInt 2) PNone, damage_event ''a'' (PInt 1) (PInt 4)]"
    by simp
  have h2: "aggregate_user_damage no_parse
       [damage_event ''a'' (PInt 1) (PInt 4), damage_event ''b'' (PInt 2) PNone]
     = Inr [(KStr (ascii ''a''), \<lparr>userDamage = 1, bossDamage = 4\<rparr>),
            (KStr (ascii ''b''), \<lparr>userDamage = 2, bossDamage = 0\<rparr>)]"
    by code_simp
  have e1: "exact_run no_parse [damage_event ''a'' (PInt 1) (PInt 4), damage_event ''b'' (PInt 2) PNone]"
    by code_simp
  have e2: "exact_run no_parse [damage_event ''b'' (PInt 2) PNone, damage_event ''a'' (PInt 1) (PInt 4)]"
    by code_simp
  from aggregate_permutation [OF h1 h2] e1 e2 show ?thesis by blast
qed

text \<open>
  C9, as the claim states it, fails: a negative damage is added like any other number,
  so a total can decrease and be negative.
\<close>

theorem negative_damage_decreases_total:
  "aggregate_user_damage no_parse [damage_event ''a'' (PInt 5) PNone]
      = Inr [(KStr (ascii ''a''), \<lparr>userDamage = 5, bossDamage = 0\<rparr>)]
   \<and> aggregate_user_damage no_parse
        [damage_event ''a'' (PInt 5) PNone, damage_event ''a'' (PInt (- 8)) PNone]
      = Inr [(KStr (ascii ''a''), \<lparr>userDamage = - 3, bossDamage = 0\<rparr>)]"
  by code_simp

theorem totals_nondecreasing_witness:
  "nonneg_values no_parse (damage_event ''a'' (PInt 1) (PInt 2))
   \<and> nonneg_values no_parse (damage_event ''a'' (PInt 2) (PStr (ascii ''x'')))
   \<and> aggregate_user_damage no_parse [damage_event ''a'' (PInt 1) (PInt 2)]
       = Inr [(KStr (ascii ''a''), \<lparr>userDamage = 1, bossDamage = 2\<rparr>)]
   \<and> aggregate_user_damage no_parse
        ([damage_event ''a'' (PInt 1) (PInt 2)] @ [damage_event ''a'' (PInt 2) (PStr (ascii ''x''))])
       = Inr [(KStr (ascii ''a''), \<lparr>userDamage = 3, bossDamage = 2\<rparr>)]
   \<and> (\<exists>s2. map_of [(KStr (ascii ''a''), \<lparr>userDamage = 3, bossDamage = 2\<rparr>)] (KStr (ascii ''a''))
          = Some s2 \<and> 1 \<le> userDamage s2 \<and> 2 \<le> bossDamage s2)"
proof -
  have n1: "nonneg_values no_parse (damage_event ''a'' (PInt 1) (PInt 2))"
    by code_simp
  have n2: "nonneg_values no_parse (damage_event ''a'' (PInt 2) (PStr (ascii ''x'')))"
    by code_simp
  have h1: "\<forall>m\<in>set ([damage_event ''a'' (PInt 1) (PInt 2)]
      @ [damage_event ''a'' (PInt 2) (PStr (ascii ''x''))]). nonneg_values no_parse m"
    using n1 n2 by simp
  have h2: "aggregate_user_damage no_parse [damage_event ''a'' (PInt 1) (PInt 2)]
       = Inr [(KStr (ascii ''a''), \<lparr>userDamage = 1, bossDamage = 2\<rparr>)]"
    by code_simp
  have h3: "aggregate_user_damage no_parse
        ([damage_event ''a'' (PInt 1) (PInt 2)] @ [damage_event ''a'' (PInt 2) (PStr (ascii ''x''))])
       = Inr [(KStr (ascii ''a''), \<lparr>userDamage = 3, bossDamage = 2\<rparr>)]"
    by code_simp
  from totals_nondecreasing [OF h1 h2 h3] n1 n2 h2 h3 show ?thesis by simp
qed

lemma fl10: "round_double 10 = 10" "fexp 10 < 1024" "round_double 5 = 5" "fexp 5 < 1024"
  by code_simp+

text \<open>
  C3. A message whose user damage is a number and whose boss damage is a string that
  \<open>float\<close> rejects adds the user damage and leaves the boss damage total as it was. The
  other way round the claim fails on the code: when the user damage is the rejected
  string, the exception leaves the \<open>try\<close> block before the boss damage of the message is
  added, and the boss damage 5 is lost.
\<close>

theorem malformed_user_damage_drops_boss_damage:
  assumes "P (ascii ''n/a'') = None"
  shows "aggregate_user_damage P [damage_event ''Alice'' (PInt 10) (PStr (ascii ''n/a''))]
       = Inr [(KStr (ascii ''Alice''), \<lparr>userDamage = 10, bossDamage = 0\<rparr>)]
     \<and> aggregate_user_damage P [damage_event ''Alice'' (PStr (ascii ''n/a'')) (PInt 5)]
       = Inr [(KStr (ascii ''Alice''), \<lparr>userDamage = 0, bossDamage = 0\<rparr>)]"
  using assms
  by (simp add: aggregate_user_damage_def damage_event_def damage_step_def try_block_def
      add_field_def field_def info_dict_def field_defs ensure_def caught_def float_add_def
      Let_def fl10)

theorem malformed_user_damage_drops_boss_damage_witness:
  "aggregate_user_damage no_parse [damage_event ''Alice'' (PStr (ascii ''n/a'')) (PInt 5)]
       = Inr [(KStr (ascii ''Alice''), \<lparr>userDamage = 0, bossDamage = 0\<rparr>)]"
  using malformed_user_damage_drops_boss_damage [of no_parse] by (simp add: no_parse_def)

section \<open>Properties of the ranking\<close>























end
